theory Spec2Isabelle
  imports Main "HOL-Library.Sublist"
begin

section \<open>The singleton Logger of src/singleton\<close>

text \<open>
  The embedding follows \<^verbatim>\<open>src/singleton/logger.cpp\<close> statement by statement.
  \<^verbatim>\<open>
  Logger *Logger::loggerInstance = nullptr;              // line 5
  mutex Logger::mtx;                                     // line 6
  Logger::Logger() { cout << "New instance created."     // line 9
                          << "\n"; }                     // line 10
  void Logger::Log(string message) { cout << message << "\n"; }   // line 13
  Logger *Logger::getLogger() {
    if (loggerInstance == nullptr) {                     // line 17
      mtx.lock();                                        // line 18
      if (loggerInstance == nullptr) {                   // line 19
        loggerInstance = new Logger();                   // line 20
      }
      mtx.unlock();                                      // line 22
    }
    return loggerInstance;                               // line 24
  }
  \<close>
  Threads are interleaved at the level of single accesses to the shared variables
  (a read of the slot, a store to it, a lock, an unlock, one insertion into
  \<^verbatim>\<open>cout\<close>), and every read sees the latest store: the semantics is the
  sequentially consistent interleaving of the statements above.
\<close>

subsection \<open>Data\<close>

text \<open>
  A \<^verbatim>\<open>Logger *\<close> is \<open>None\<close> for \<^verbatim>\<open>nullptr\<close> and \<open>Some a\<close> for the address
  \<open>a\<close> of a Logger object. \<^verbatim>\<open>Logger\<close> has no data members, so an object is
  nothing but its address.
\<close>

type_synonym addr = nat
type_synonym ptr = "addr option"
type_synonym tid = nat

text \<open>
  The place a call of \<^verbatim>\<open>getLogger\<close> has reached, named after the line of
  \<^verbatim>\<open>logger.cpp\<close> it executes next. Line 20 is four steps: \<^verbatim>\<open>operator new\<close>,
  the two insertions of the constructor body (lines 9 and 10, with \<^verbatim>\<open>this\<close>),
  and the store into the slot. \<open>Returned p\<close> is a call that has returned \<open>p\<close>;
  \<open>Thrown\<close> is a call that \<^verbatim>\<open>std::bad_alloc\<close> has left.
\<close>

datatype pc =
    L17
  | L18
  | L19
  | L20_new
  | L9 addr
  | L10 addr
  | L20_store addr
  | L22
  | L24
  | Returned ptr
  | Thrown

text \<open>
  The process: the two static members, the standard output written so far, the
  number of Logger objects that \<^verbatim>\<open>new Logger()\<close> has created (nothing is ever
  deleted, and the allocator hands out the addresses 0, 1, 2, ...), and one program
  counter for each call of \<^verbatim>\<open>getLogger\<close>. \<open>mtx\<close> is the thread that owns the
  mutex, if any.
\<close>

record state =
  loggerInstance :: ptr
  mtx :: "tid option"
  cout :: string
  instances :: nat
  threads :: "pc list"

subsection \<open>Operations\<close>

text \<open>
  Modelled from the library: \<^verbatim>\<open>cout << x\<close> for a string \<open>x\<close>. The insertion
  operator of the stream is library code, not code of the repository, and the language
  leaves to the library how the characters of concurrent insertions are ordered. The
  model is the stream that hands each inserted string to the output as a whole: one
  insertion appends the whole of \<open>x\<close> in one step, and concurrent threads
  interleave between insertions, not inside one.
\<close>

definition cout_insert :: "string \<Rightarrow> state \<Rightarrow> state" where
  "cout_insert x s = s\<lparr>cout := cout s @ x\<rparr>"

text \<open>Line 13, \<^verbatim>\<open>void Logger::Log(string message)\<close>.\<close>

definition Log :: "string \<Rightarrow> state \<Rightarrow> state" where
  "Log message s = cout_insert [CHR 0x0A] (cout_insert message s)"

text \<open>
  One step of thread \<open>t\<close> at a given place: the next place and the new state, or
  \<open>None\<close> when the thread cannot move (it waits for the mutex, or its call is over).
  \<open>ok\<close> tells whether \<^verbatim>\<open>operator new\<close> finds memory, should this step be the
  allocation; if it does not, \<^verbatim>\<open>std::bad_alloc\<close> propagates out of
  \<^verbatim>\<open>getLogger\<close>, which has no handler, past line 22.
\<close>

fun instr :: "tid \<Rightarrow> bool \<Rightarrow> pc \<Rightarrow> state \<Rightarrow> (pc \<times> state) option" where
  "instr t ok L17 s = Some (if loggerInstance s = None then L18 else L24, s)"
| "instr t ok L18 s = (if mtx s = None then Some (L19, s\<lparr>mtx := Some t\<rparr>) else None)"
| "instr t ok L19 s = Some (if loggerInstance s = None then L20_new else L22, s)"
| "instr t ok L20_new s =
     (if ok then Some (L9 (instances s), s\<lparr>instances := Suc (instances s)\<rparr>)
      else Some (Thrown, s))"
| "instr t ok (L9 a) s = Some (L10 a, cout_insert ''New instance created.'' s)"
| "instr t ok (L10 a) s = Some (L20_store a, cout_insert [CHR 0x0A] s)"
| "instr t ok (L20_store a) s = Some (L22, s\<lparr>loggerInstance := Some a\<rparr>)"
| "instr t ok L22 s = Some (L24, s\<lparr>mtx := None\<rparr>)"
| "instr t ok L24 s = Some (Returned (loggerInstance s), s)"
| "instr t ok (Returned p) s = None"
| "instr t ok Thrown s = None"

definition step :: "tid \<Rightarrow> bool \<Rightarrow> state \<Rightarrow> state option" where
  "step t ok s =
     (if t < length (threads s) then
        (case instr t ok (threads s ! t) s of
           None \<Rightarrow> None
         | Some (l, s') \<Rightarrow> Some (s'\<lparr>threads := (threads s')[t := l]\<rparr>))
      else None)"

text \<open>
  An execution is a schedule: the list of the threads that move, in order, each
  with the answer of the allocator. It is \<open>None\<close> when the schedule asks a thread
  to move that cannot.
\<close>

fun exec :: "(tid \<times> bool) list \<Rightarrow> state \<Rightarrow> state option" where
  "exec [] s = Some s"
| "exec ((t, ok) # sched) s =
     (case step t ok s of None \<Rightarrow> None | Some s' \<Rightarrow> exec sched s')"

text \<open>Process start (lines 5 and 6), with \<open>n\<close> calls of \<^verbatim>\<open>getLogger\<close> to come.\<close>

definition init :: "nat \<Rightarrow> state" where
  "init n = \<lparr>loggerInstance = None, mtx = None, cout = [], instances = 0,
             threads = replicate n L17\<rparr>"

text \<open>The line the constructor writes.\<close>

definition banner :: string where
  "banner = ''New instance created.'' @ [CHR 0x0A]"

section \<open>The invariant of the double-checked lock\<close>

text \<open>The places between \<^verbatim>\<open>mtx.lock()\<close> and \<^verbatim>\<open>mtx.unlock()\<close>. A call that
  \<^verbatim>\<open>std::bad_alloc\<close> has left never reached line 22: it still owns the mutex.\<close>

fun holds_mtx :: "pc \<Rightarrow> bool" where
  "holds_mtx L17 = False"
| "holds_mtx L18 = False"
| "holds_mtx L19 = True"
| "holds_mtx L20_new = True"
| "holds_mtx (L9 a) = True"
| "holds_mtx (L10 a) = True"
| "holds_mtx (L20_store a) = True"
| "holds_mtx L22 = True"
| "holds_mtx L24 = False"
| "holds_mtx (Returned p) = False"
| "holds_mtx Thrown = True"

text \<open>
  What a call at a given place knows about the shared variables. The one object that
  is ever created has address 0.
\<close>

fun local_ok :: "state \<Rightarrow> pc \<Rightarrow> bool" where
  "local_ok s L17 = True"
| "local_ok s L18 = True"
| "local_ok s L19 = (loggerInstance s = None \<longrightarrow> instances s = 0 \<and> cout s = [])"
| "local_ok s L20_new = (loggerInstance s = None \<and> instances s = 0 \<and> cout s = [])"
| "local_ok s (L9 a) = (a = 0 \<and> loggerInstance s = None \<and> instances s = 1 \<and> cout s = [])"
| "local_ok s (L10 a) =
     (a = 0 \<and> loggerInstance s = None \<and> instances s = 1 \<and> cout s = ''New instance created.'')"
| "local_ok s (L20_store a) =
     (a = 0 \<and> loggerInstance s = None \<and> instances s = 1 \<and> cout s = banner)"
| "local_ok s L22 = (loggerInstance s = Some 0)"
| "local_ok s L24 = (loggerInstance s = Some 0)"
| "local_ok s (Returned p) = (p = Some 0 \<and> loggerInstance s = Some 0)"
| "local_ok s Thrown = (loggerInstance s = None \<and> instances s = 0 \<and> cout s = [])"

text \<open>What holds of the shared variables whatever the calls are doing.\<close>

definition global_ok :: "state \<Rightarrow> bool" where
  "global_ok s =
     (case loggerInstance s of
        None \<Rightarrow> (instances s = 0 \<and> cout s = []) \<or>
                (instances s = 1 \<and> mtx s \<noteq> None \<and>
                 (cout s = [] \<or> cout s = ''New instance created.'' \<or> cout s = banner))
      | Some a \<Rightarrow> a = 0 \<and> instances s = 1 \<and> cout s = banner)"

text \<open>
  The invariant: a thread is between lock and unlock exactly when it owns the mutex
  (mutual exclusion), and every call's local knowledge is right.
\<close>

definition wf_state :: "state \<Rightarrow> bool" where
  "wf_state s \<longleftrightarrow>
     (\<forall>t<length (threads s). holds_mtx (threads s ! t) = (mtx s = Some t)) \<and>
     (\<forall>t. mtx s = Some t \<longrightarrow> t < length (threads s)) \<and>
     (\<forall>t<length (threads s). local_ok s (threads s ! t)) \<and>
     global_ok s"

section \<open>Progress measure\<close>

text \<open>
  An upper bound on the number of steps a call at a given place can still take: the
  longest path through \<^verbatim>\<open>getLogger\<close> has nine steps.
\<close>

fun remaining :: "pc \<Rightarrow> nat" where
  "remaining L17 = 9"
| "remaining L18 = 8"
| "remaining L19 = 7"
| "remaining L20_new = 6"
| "remaining (L9 a) = 5"
| "remaining (L10 a) = 4"
| "remaining (L20_store a) = 3"
| "remaining L22 = 2"
| "remaining L24 = 1"
| "remaining (Returned p) = 0"
| "remaining Thrown = 0"

text \<open>The steps all calls together can still take.\<close>

definition work :: "state \<Rightarrow> nat" where
  "work s = sum_list (map remaining (threads s))"

section \<open>The order of memory accesses\<close>

text \<open>
  The steps an execution takes, in order: the thread that moves and the place it
  executes. The places \<open>L17\<close>, \<open>L19\<close> and \<open>L24\<close> read the slot,
  \<open>L20_store\<close> writes it, \<open>L18\<close> locks the mutex and \<open>L22\<close> unlocks it.
\<close>

fun trace :: "(tid \<times> bool) list \<Rightarrow> state \<Rightarrow> (tid \<times> pc) list" where
  "trace [] s = []"
| "trace ((t, ok) # sched) s =
     (case step t ok s of None \<Rightarrow> [] | Some s' \<Rightarrow> (t, threads s ! t) # trace sched s')"

text \<open>
  The orderings C++ gives the steps of \<^verbatim>\<open>getLogger\<close>: a step is sequenced before
  the later steps of its own thread, and an unlock of the mutex synchronizes with the
  later locks of it. \<^verbatim>\<open>loggerInstance\<close> is a plain \<^verbatim>\<open>Logger *\<close>
  (\<^verbatim>\<open>logger.hpp\<close>, line 10), not an atomic object, so its reads and its store add no
  ordering of their own.
\<close>

definition hb_edge :: "(tid \<times> pc) list \<Rightarrow> nat \<Rightarrow> nat \<Rightarrow> bool" where
  "hb_edge tr i j =
     (i < j \<and> j < length tr \<and>
      (fst (tr ! i) = fst (tr ! j) \<or> (snd (tr ! i) = L22 \<and> snd (tr ! j) = L18)))"

text \<open>
  Step \<open>i\<close> happens before step \<open>j\<close>: a chain of such orderings leads from
  \<open>i\<close> to \<open>j\<close>. Every ordering goes forward in the trace, so the chain is found
  by recursion on \<open>j\<close>.
\<close>

fun happens_before :: "(tid \<times> pc) list \<Rightarrow> nat \<Rightarrow> nat \<Rightarrow> bool" where
  "happens_before tr i j =
     (hb_edge tr i j \<or> (\<exists>k \<in> set [Suc i..<j]. happens_before tr i k \<and> hb_edge tr k j))"

declare happens_before.simps [simp del]

section \<open>The threads of src/singleton/user.cpp\<close>

text \<open>
  \<^verbatim>\<open>
  void user1Logs() {
    Logger *logger1 = Logger::getLogger();               // line 7
    logger1->Log("message from user1");                  // line 8
  }
  void user2Logs() {
    Logger *logger2 = Logger::getLogger();               // line 12
    logger2->Log("message from user2");                  // line 13
  }
  int main() { thread t1(user1Logs); thread t2(user2Logs); t1.join(); t2.join(); }
  \<close>
  A thread runs its call of \<^verbatim>\<open>getLogger\<close> and then \<^verbatim>\<open>Log\<close>, which is two
  insertions into \<^verbatim>\<open>cout\<close> (\<^verbatim>\<open>logger.cpp\<close>, line 13). As everywhere in this
  theory one insertion appends its whole string in one step, and the threads
  interleave between insertions.
\<close>


text \<open>How far a thread is with its call of \<^verbatim>\<open>Log\<close>.\<close>

datatype lpc = L13_message | L13_newline | L13_done

fun log_instr :: "string \<Rightarrow> lpc \<Rightarrow> state \<Rightarrow> (lpc \<times> state) option" where
  "log_instr message L13_message s = Some (L13_newline, cout_insert message s)"
| "log_instr message L13_newline s = Some (L13_done, cout_insert [CHR 0x0A] s)"
| "log_instr message L13_done s = None"

fun has_returned :: "pc \<Rightarrow> bool" where
  "has_returned (Returned p) = True"
| "has_returned l = False"

text \<open>
  One step of thread \<open>t\<close>, whose message is \<open>msgs ! t\<close>: a step of its call of
  \<^verbatim>\<open>getLogger\<close> until that has returned, then a step of \<^verbatim>\<open>Log\<close>. (An exception
  that leaves a thread function ends the process; here the other threads may go on,
  which only adds executions.)
\<close>

definition user_step ::
  "string list \<Rightarrow> tid \<Rightarrow> bool \<Rightarrow> state \<times> lpc list \<Rightarrow> (state \<times> lpc list) option" where
  "user_step msgs t ok c =
     (case c of (s, ls) \<Rightarrow>
        if t < length (threads s) \<and> t < length ls \<and> t < length msgs then
          if has_returned (threads s ! t) then
            (case log_instr (msgs ! t) (ls ! t) s of
               None \<Rightarrow> None
             | Some (l, s') \<Rightarrow> Some (s', ls[t := l]))
          else
            (case step t ok s of
               None \<Rightarrow> None
             | Some s' \<Rightarrow> Some (s', ls))
        else None)"

fun user_exec ::
  "string list \<Rightarrow> (tid \<times> bool) list \<Rightarrow> state \<times> lpc list \<Rightarrow> (state \<times> lpc list) option" where
  "user_exec msgs [] c = Some c"
| "user_exec msgs ((t, ok) # sched) c =
     (case user_step msgs t ok c of None \<Rightarrow> None | Some c' \<Rightarrow> user_exec msgs sched c')"



section \<open>The invariant holds in every execution\<close>

lemma local_ok_threads [simp]: "local_ok (s\<lparr>threads := x\<rparr>) l = local_ok s l"
  by (cases l) simp_all

lemma global_ok_threads [simp]: "global_ok (s\<lparr>threads := x\<rparr>) = global_ok s"
  by (simp add: global_ok_def split: option.splits)

lemma wf_state_init: "wf_state (init n)"
  by (simp add: wf_state_def init_def global_ok_def)

lemma instr_threads: "instr t ok l s = Some (l', g) \<Longrightarrow> threads g = threads s"
  by (cases l) (auto simp: cout_insert_def split: if_splits)

lemma instr_self_mtx:
  assumes "instr t ok l s = Some (l', g)"
    and "holds_mtx l = (mtx s = Some t)" and "local_ok s l" and "global_ok s"
  shows "holds_mtx l' = (mtx g = Some t)"
  using assms
  by (cases l) (auto simp: cout_insert_def split: if_splits)

lemma instr_self_local:
  assumes "instr t ok l s = Some (l', g)"
    and "holds_mtx l = (mtx s = Some t)" and "local_ok s l" and "global_ok s"
  shows "local_ok g l'"
  using assms
  by (cases l) (auto simp: cout_insert_def banner_def global_ok_def split: if_splits)

lemma instr_global:
  assumes "instr t ok l s = Some (l', g)"
    and "holds_mtx l = (mtx s = Some t)" and "local_ok s l" and "global_ok s"
  shows "global_ok g"
  using assms
  by (cases l) (auto simp: cout_insert_def banner_def global_ok_def split: if_splits option.splits)

lemma instr_other_mtx:
  assumes "instr t ok l s = Some (l', g)"
    and "holds_mtx l = (mtx s = Some t)" and "u \<noteq> t"
  shows "(mtx g = Some u) = (mtx s = Some u)"
  using assms by (cases l) (auto simp: cout_insert_def split: if_splits)

lemma local_ok_cong:
  "loggerInstance g = loggerInstance s \<Longrightarrow> instances g = instances s \<Longrightarrow> cout g = cout s
   \<Longrightarrow> local_ok g k = local_ok s k"
  by (cases k) simp_all

lemma local_ok_waiting:
  "\<not> holds_mtx k \<Longrightarrow> local_ok s k
   \<Longrightarrow> (loggerInstance s \<noteq> None \<longrightarrow> loggerInstance g = loggerInstance s)
   \<Longrightarrow> local_ok g k"
  by (cases k) auto

lemma instr_slot_stable:
  assumes "instr t ok l s = Some (l', g)" and "local_ok s l" and "loggerInstance s \<noteq> None"
  shows "loggerInstance g = loggerInstance s"
  using assms by (cases l) (auto simp: cout_insert_def split: if_splits)

lemma instr_outside:
  assumes "instr t ok l s = Some (l', g)" and "\<not> holds_mtx l"
  shows "loggerInstance g = loggerInstance s \<and> instances g = instances s \<and> cout g = cout s"
  using assms by (cases l) (auto split: if_splits)

lemma instr_other_local:
  assumes i: "instr t ok l s = Some (l', g)"
    and l: "holds_mtx l = (mtx s = Some t)" "local_ok s l" and u: "u \<noteq> t"
    and k: "holds_mtx k = (mtx s = Some u)" "local_ok s k"
  shows "local_ok g k"
proof (cases "mtx s = Some t")
  case True
  with u k(1) have "\<not> holds_mtx k" by simp
  then show ?thesis
    using k(2) instr_slot_stable [OF i l(2)] by (auto intro: local_ok_waiting)
next
  case False
  with l(1) have "\<not> holds_mtx l" by simp
  from instr_outside [OF i this] k(2) show ?thesis
    by (simp add: local_ok_cong [of g s])
qed

lemma step_wf_state:
  assumes "wf_state s" and "step t ok s = Some s'"
  shows "wf_state s'"
proof -
  from assms(2) obtain l' g where t: "t < length (threads s)"
    and i: "instr t ok (threads s ! t) s = Some (l', g)"
    and s': "s' = g\<lparr>threads := (threads g)[t := l']\<rparr>"
    by (auto simp: step_def split: if_splits option.splits)
  have thr: "threads g = threads s" by (rule instr_threads [OF i])
  from assms(1) have A: "\<And>u. u < length (threads s) \<Longrightarrow> holds_mtx (threads s ! u) = (mtx s = Some u)"
    and B: "\<And>u. mtx s = Some u \<Longrightarrow> u < length (threads s)"
    and C: "\<And>u. u < length (threads s) \<Longrightarrow> local_ok s (threads s ! u)"
    and D: "global_ok s"
    by (simp_all add: wf_state_def)
  note me1 = instr_self_mtx [OF i A [OF t] C [OF t] D]
  note me2 = instr_self_local [OF i A [OF t] C [OF t] D]
  note me3 = instr_global [OF i A [OF t] C [OF t] D]
  have 1: "holds_mtx (threads s' ! u) = (mtx s' = Some u)" if "u < length (threads s')" for u
  proof (cases "u = t")
    case True
    with t me1 show ?thesis by (simp add: s' thr)
  next
    case False
    with that have u: "u < length (threads s)" by (simp add: s' thr)
    from False instr_other_mtx [OF i A [OF t] False] A [OF u] show ?thesis
      by (simp add: s' thr)
  qed
  have 2: "u < length (threads s')" if "mtx s' = Some u" for u
  proof (cases "u = t")
    case True
    with t show ?thesis by (simp add: s' thr)
  next
    case False
    with that instr_other_mtx [OF i A [OF t] False] B [of u] show ?thesis
      by (simp add: s' thr)
  qed
  have 3: "local_ok s' (threads s' ! u)" if "u < length (threads s')" for u
  proof (cases "u = t")
    case True
    with t me2 show ?thesis by (simp add: s' thr)
  next
    case False
    with that have u: "u < length (threads s)" by (simp add: s' thr)
    from False instr_other_local [OF i A [OF t] C [OF t] False A [OF u] C [OF u]]
    show ?thesis by (simp add: s' thr)
  qed
  from me3 have 4: "global_ok s'" by (simp add: s')
  from 1 2 3 4 show ?thesis unfolding wf_state_def by blast
qed

lemma exec_wf_state: "wf_state s \<Longrightarrow> exec sched s = Some s' \<Longrightarrow> wf_state s'"
proof (induction sched arbitrary: s)
  case Nil
  then show ?case by simp
next
  case (Cons a sched)
  obtain t ok where a: "a = (t, ok)" by (cases a)
  from Cons.prems(2) obtain s1 where s1: "step t ok s = Some s1" and r: "exec sched s1 = Some s'"
    by (auto simp: a split: option.splits)
  from Cons.IH [OF step_wf_state [OF Cons.prems(1) s1] r] show ?case .
qed

section \<open>Reachable states\<close>

lemma exec_length: "exec sched s = Some s' \<Longrightarrow> length (threads s') = length (threads s)"
proof (induction sched arbitrary: s)
  case Nil
  then show ?case by simp
next
  case (Cons a sched)
  obtain t ok where a: "a = (t, ok)" by (cases a)
  from Cons.prems obtain s1 where s1: "step t ok s = Some s1" and r: "exec sched s1 = Some s'"
    by (auto simp: a split: option.splits)
  from s1 have "length (threads s1) = length (threads s)"
    by (auto simp: step_def instr_threads split: if_splits option.splits)
  with Cons.IH [OF r] show ?case by simp
qed

lemma reachable_wf: "exec sched (init n) = Some s \<Longrightarrow> wf_state s \<and> length (threads s) = n"
  using exec_wf_state [OF wf_state_init, of sched n s] exec_length [of sched "init n" s]
  by (simp add: init_def)

lemma wf_returned:
  "wf_state s \<Longrightarrow> t < length (threads s) \<Longrightarrow> threads s ! t = Returned p
   \<Longrightarrow> p = Some 0 \<and> loggerInstance s = Some 0 \<and> instances s = 1 \<and> cout s = banner"
proof -
  assume wf: "wf_state s" and t: "t < length (threads s)" and r: "threads s ! t = Returned p"
  from wf t have "local_ok s (threads s ! t)" by (simp add: wf_state_def)
  with r have 1: "p = Some 0" "loggerInstance s = Some 0" by simp_all
  from wf have "global_ok s" by (simp add: wf_state_def)
  with 1(2) have "instances s = 1 \<and> cout s = banner" by (simp add: global_ok_def)
  with 1 show ?thesis by simp
qed

lemma step_slot_stable:
  assumes "wf_state s" and "step t ok s = Some s'" and "loggerInstance s = Some a"
  shows "loggerInstance s' = Some a"
proof -
  from assms(2) obtain l' g where t: "t < length (threads s)"
    and i: "instr t ok (threads s ! t) s = Some (l', g)"
    and s': "s' = g\<lparr>threads := (threads g)[t := l']\<rparr>"
    by (auto simp: step_def split: if_splits option.splits)
  from assms(1) t have "local_ok s (threads s ! t)" by (simp add: wf_state_def)
  from instr_slot_stable [OF i this] assms(3) show ?thesis by (simp add: s')
qed

lemma exec_slot_stable:
  "wf_state s \<Longrightarrow> exec sched s = Some s' \<Longrightarrow> loggerInstance s = Some a
   \<Longrightarrow> loggerInstance s' = Some a"
proof (induction sched arbitrary: s)
  case Nil
  then show ?case by simp
next
  case (Cons x sched)
  obtain t ok where x: "x = (t, ok)" by (cases x)
  from Cons.prems(2) obtain s1 where s1: "step t ok s = Some s1" and r: "exec sched s1 = Some s'"
    by (auto simp: x split: option.splits)
  from Cons.IH [OF step_wf_state [OF Cons.prems(1) s1] r
      step_slot_stable [OF Cons.prems(1) s1 Cons.prems(3)]]
  show ?case .
qed

section \<open>Termination and absence of deadlock\<close>

lemma instr_remaining:
  "instr t ok l s = Some (l', g) \<Longrightarrow> remaining l' < remaining l"
  by (cases l) (auto split: if_splits)

lemma sum_list_update_less:
  fixes xs :: "nat list"
  assumes "t < length xs" and "v < xs ! t"
  shows "sum_list (xs[t := v]) < sum_list xs"
  using assms
proof (induction xs arbitrary: t)
  case Nil
  then show ?case by simp
next
  case (Cons x xs)
  then show ?case by (cases t) auto
qed

lemma step_work:
  assumes "step t ok s = Some s'"
  shows "work s' < work s"
proof -
  from assms obtain l' g where t: "t < length (threads s)"
    and i: "instr t ok (threads s ! t) s = Some (l', g)"
    and s': "s' = g\<lparr>threads := (threads g)[t := l']\<rparr>"
    by (auto simp: step_def split: if_splits option.splits)
  have thr: "threads g = threads s" by (rule instr_threads [OF i])
  have "work s' = sum_list ((map remaining (threads s))[t := remaining l'])"
    by (simp add: work_def s' thr map_update)
  also from t instr_remaining [OF i]
  have "\<dots> < sum_list (map remaining (threads s))"
    by (intro sum_list_update_less) simp_all
  finally show ?thesis by (simp add: work_def)
qed

lemma exec_work: "exec sched s = Some s' \<Longrightarrow> length sched + work s' \<le> work s"
proof (induction sched arbitrary: s)
  case Nil
  then show ?case by simp
next
  case (Cons x sched)
  obtain t ok where x: "x = (t, ok)" by (cases x)
  from Cons.prems obtain s1 where s1: "step t ok s = Some s1" and r: "exec sched s1 = Some s'"
    by (auto simp: x split: option.splits)
  from Cons.IH [OF r] step_work [OF s1] show ?case by simp
qed

lemma work_init: "work (init n) = 9 * n"
  by (simp add: work_def init_def sum_list_replicate)

lemma step_no_throw:
  assumes "step t True s = Some s'" and "Thrown \<notin> set (threads s)"
  shows "Thrown \<notin> set (threads s')"
proof -
  from assms(1) obtain l' g where t: "t < length (threads s)"
    and i: "instr t True (threads s ! t) s = Some (l', g)"
    and s': "s' = g\<lparr>threads := (threads g)[t := l']\<rparr>"
    by (auto simp: step_def split: if_splits option.splits)
  have thr: "threads g = threads s" by (rule instr_threads [OF i])
  from i have "l' \<noteq> Thrown" by (cases "threads s ! t") (auto split: if_splits)
  moreover have "set (threads s') \<subseteq> insert l' (set (threads s))"
    by (simp add: s' thr set_update_subset_insert)
  ultimately show ?thesis using assms(2) by auto
qed

lemma exec_no_throw:
  "exec sched s = Some s' \<Longrightarrow> \<forall>(t, ok) \<in> set sched. ok \<Longrightarrow> Thrown \<notin> set (threads s)
   \<Longrightarrow> Thrown \<notin> set (threads s')"
proof (induction sched arbitrary: s)
  case Nil
  then show ?case by simp
next
  case (Cons x sched)
  obtain t ok where x: "x = (t, ok)" by (cases x)
  from Cons.prems(2) x have ok: "ok" and rest: "\<forall>(t, ok) \<in> set sched. ok" by auto
  from Cons.prems(1) obtain s1 where s1: "step t ok s = Some s1" and r: "exec sched s1 = Some s'"
    by (auto simp: x split: option.splits)
  from s1 ok have "step t True s = Some s1" by simp
  from Cons.IH [OF r rest step_no_throw [OF this Cons.prems(3)]] show ?case .
qed

lemma instr_enabled:
  "l \<noteq> L18 \<Longrightarrow> l \<noteq> Thrown \<Longrightarrow> \<forall>p. l \<noteq> Returned p \<Longrightarrow> instr t ok l s \<noteq> None"
  by (cases l) auto

lemma step_enabled:
  "t < length (threads s) \<Longrightarrow> instr t ok (threads s ! t) s \<noteq> None \<Longrightarrow> step t ok s \<noteq> None"
  by (auto simp: step_def split: option.splits)

lemma no_deadlock:
  assumes wf: "wf_state s" and nt: "Thrown \<notin> set (threads s)"
    and t: "t < length (threads s)" and r: "\<forall>p. threads s ! t \<noteq> Returned p"
  shows "\<exists>u<length (threads s). step u True s \<noteq> None"
proof (cases "threads s ! t = L18")
  case False
  from nt t have "threads s ! t \<noteq> Thrown" by (metis nth_mem)
  from step_enabled [OF t instr_enabled [OF False this r]] t show ?thesis
    by blast
next
  case True
  show ?thesis
  proof (cases "mtx s")
    case None
    with True have "instr t True (threads s ! t) s \<noteq> None" by simp
    from step_enabled [OF t this] t show ?thesis by blast
  next
    case (Some u)
    with wf have u: "u < length (threads s)" and h: "holds_mtx (threads s ! u)"
      by (simp_all add: wf_state_def)
    from nt u have "threads s ! u \<noteq> Thrown" by (metis nth_mem)
    with h have "instr u True (threads s ! u) s \<noteq> None"
      by (cases "threads s ! u") auto
    from step_enabled [OF u this] u show ?thesis by blast
  qed
qed

section \<open>Happens-before is the transitive closure of the orderings\<close>

lemma happens_before_less: "happens_before tr i j \<Longrightarrow> i < j"
  by (subst (asm) happens_before.simps) (auto simp: hb_edge_def)

lemma happens_before_trancl:
  "happens_before tr i j \<longleftrightarrow> (i, j) \<in> {(i, j). hb_edge tr i j}\<^sup>+"
proof
  show "happens_before tr i j \<Longrightarrow> (i, j) \<in> {(i, j). hb_edge tr i j}\<^sup>+"
  proof (induction tr i j rule: happens_before.induct)
    case (1 tr i j)
    from "1.prems" consider "hb_edge tr i j"
      | k where "k \<in> set [Suc i..<j]" "happens_before tr i k" "hb_edge tr k j"
      by (subst (asm) happens_before.simps) auto
    then show ?case
    proof cases
      case 1
      then show ?thesis by auto
    next
      case 2
      from "1.IH" [OF 2(1) 2(2)] 2(3) show ?thesis
        by (auto intro: trancl_into_trancl)
    qed
  qed
next
  assume "(i, j) \<in> {(i, j). hb_edge tr i j}\<^sup>+"
  then show "happens_before tr i j"
  proof (induction rule: trancl_induct)
    case (base y)
    then show ?case by (subst happens_before.simps) simp
  next
    case (step y z)
    from step.IH have "i < y" by (rule happens_before_less)
    moreover from step.hyps(2) have "y < z" by (simp add: hb_edge_def)
    ultimately have "y \<in> set [Suc i..<z]" by simp
    with step.IH step.hyps(2) show ?case
      by (subst happens_before.simps) blast
  qed
qed

text \<open>
  Nothing happens before a step that is not a lock and that no step of the same thread
  precedes: such is the read of line 17 of every call.
\<close>

lemma first_step_unordered:
  assumes "\<forall>k<j. fst (tr ! k) \<noteq> fst (tr ! j)" and "snd (tr ! j) \<noteq> L18"
  shows "\<not> happens_before tr i j"
proof -
  from assms have "\<not> hb_edge tr k j" for k
    by (auto simp: hb_edge_def)
  then show ?thesis
    by (subst happens_before.simps) simp
qed

section \<open>The output of the logging threads\<close>










text \<open>The two steps of \<^verbatim>\<open>Log\<close>, taken together, are \<^verbatim>\<open>Log\<close>.\<close>

lemma log_steps_are_Log:
  assumes "t < length (threads s)" and "t < length ls" and "t < length msgs"
    and "threads s ! t = Returned p" and "ls ! t = L13_message"
  shows "user_exec msgs [(t, ok1), (t, ok2)] (s, ls) = Some (Log (msgs ! t) s, ls[t := L13_done])"
  using assms by (simp add: user_step_def Log_def cout_insert_def)

section \<open>Logger::getLogger under concurrent callers\<close>

text \<open>
  C1. Let \<open>n\<close> calls of \<^verbatim>\<open>getLogger\<close> run concurrently from process start, in any
  interleaving in which no allocation fails (this covers every race of two or more
  first-time callers; the allocator's answer matters at the step of
  \<^verbatim>\<open>operator new\<close> only, so asking it to be positive at every step loses no
  execution). Then at every moment at most one Logger has been constructed;
  every call that has returned has returned the one instance, which is the non-null
  content of the slot, and exactly one construction has taken place; the execution has
  at most \<open>9 * n\<close> steps; and as long as some call has not returned, some thread can
  take a step. So every execution ends, and it ends with all \<open>n\<close> callers holding
  the same pointer.
\<close>

theorem getLogger_constructs_once:
  assumes "exec sched (init n) = Some s" and "\<forall>(t, ok) \<in> set sched. ok"
  shows "instances s \<le> 1 \<and>
         (\<forall>t<n. \<forall>p. threads s ! t = Returned p \<longrightarrow>
            instances s = 1 \<and> p = loggerInstance s \<and> p \<noteq> None) \<and>
         length sched \<le> 9 * n \<and>
         ((\<exists>t<n. \<forall>p. threads s ! t \<noteq> Returned p) \<longrightarrow> (\<exists>u<n. step u True s \<noteq> None))"
proof -
  from reachable_wf [OF assms(1)] have wf: "wf_state s" and n: "length (threads s) = n"
    by simp_all
  from wf have 1: "instances s \<le> 1"
    by (auto simp: wf_state_def global_ok_def split: option.splits)
  from wf_returned [OF wf] n
  have 2: "\<forall>t<n. \<forall>p. threads s ! t = Returned p \<longrightarrow>
            instances s = 1 \<and> p = loggerInstance s \<and> p \<noteq> None"
    by auto
  from exec_work [OF assms(1)] have 3: "length sched \<le> 9 * n"
    by (simp add: work_init)
  have "Thrown \<notin> set (threads (init n))" by (simp add: init_def)
  from exec_no_throw [OF assms(1,2) this] have nt: "Thrown \<notin> set (threads s)" .
  from no_deadlock [OF wf nt] n
  have 4: "(\<exists>t<n. \<forall>p. threads s ! t \<noteq> Returned p) \<longrightarrow> (\<exists>u<n. step u True s \<noteq> None)"
    by auto
  from 1 2 3 4 show ?thesis by blast
qed

text \<open>
  Two callers that both find the slot empty at line 17 before either takes the lock:
  thread 0 constructs, thread 1 finds the instance at line 19.
\<close>

theorem getLogger_constructs_once_witness:
  "exec [(0, True), (1, True), (0, True), (0, True), (0, True), (0, True), (0, True),
         (0, True), (0, True), (0, True), (1, True), (1, True), (1, True), (1, True)] (init 2) =
     Some \<lparr>loggerInstance = Some 0, mtx = None, cout = banner, instances = 1,
            threads = [Returned (Some 0), Returned (Some 0)]\<rparr> \<and>
   list_all snd [(0::nat, True), (1, True), (0, True), (0, True), (0, True), (0, True),
         (0, True), (0, True), (0, True), (0, True), (1, True), (1, True), (1, True),
         (1, True)] \<and>
   instances \<lparr>loggerInstance = Some 0, mtx = None, cout = banner, instances = 1,
            threads = [Returned (Some 0), Returned (Some 0)]\<rparr> \<le> 1 \<and>
   length [(0::nat, True), (1, True), (0, True), (0, True), (0, True), (0, True),
         (0, True), (0, True), (0, True), (0, True), (1, True), (1, True), (1, True),
         (1, True)] \<le> 9 * 2"
proof -
  let ?sched = "[(0, True), (1, True), (0, True), (0, True), (0, True), (0, True), (0, True),
         (0, True), (0, True), (0, True), (1, True), (1, True), (1, True), (1::nat, True)]"
  let ?s = "\<lparr>loggerInstance = Some 0, mtx = None, cout = banner, instances = 1,
            threads = [Returned (Some 0), Returned (Some 0)]\<rparr>"
  have e: "exec ?sched (init 2) = Some ?s"
    by (simp add: init_def step_def cout_insert_def banner_def numeral_2_eq_2)
  have f: "\<forall>(t, ok) \<in> set ?sched. ok" by simp
  from getLogger_constructs_once [OF e f] e f show ?thesis by simp
qed

text \<open>
  C2. Once the slot holds a reference \<open>a\<close>, whatever the callers do next (an allocation
  may even fail) leaves \<open>a\<close> in the slot, \<^verbatim>\<open>Log\<close> leaves it there too, and every call
  that has returned, before or after, has returned \<open>a\<close>: any two returned pointers are
  equal.
\<close>

theorem slot_identity_stable:
  assumes "exec sched (init n) = Some s" and "loggerInstance s = Some a"
    and "exec sched' s = Some s'"
  shows "loggerInstance s' = Some a \<and> loggerInstance (Log m s') = Some a \<and>
         (\<forall>t<n. \<forall>p. threads s ! t = Returned p \<longrightarrow> p = Some a) \<and>
         (\<forall>t<n. \<forall>p. threads s' ! t = Returned p \<longrightarrow> p = Some a)"
proof -
  from reachable_wf [OF assms(1)] have wf: "wf_state s" and n: "length (threads s) = n"
    by simp_all
  from exec_wf_state [OF wf assms(3)] have wf': "wf_state s'" .
  from exec_length [OF assms(3)] n have n': "length (threads s') = n" by simp
  from exec_slot_stable [OF wf assms(3) assms(2)] have slot': "loggerInstance s' = Some a" .
  from wf_returned [OF wf] n assms(2)
  have r: "\<forall>t<n. \<forall>p. threads s ! t = Returned p \<longrightarrow> p = Some a" by auto
  from wf_returned [OF wf'] n' slot'
  have r': "\<forall>t<n. \<forall>p. threads s' ! t = Returned p \<longrightarrow> p = Some a" by auto
  from slot' r r' show ?thesis by (simp add: Log_def cout_insert_def)
qed

text \<open>Thread 0 constructs and returns; then thread 1 calls and returns.\<close>

theorem slot_identity_stable_witness:
  "exec [(0, True), (0, True), (0, True), (0, True), (0, True), (0, True), (0, True),
         (0, True), (0, True)] (init 2) =
     Some \<lparr>loggerInstance = Some 0, mtx = None, cout = banner, instances = 1,
            threads = [Returned (Some 0), L17]\<rparr> \<and>
   exec [(1, True), (1, True)]
     \<lparr>loggerInstance = Some 0, mtx = None, cout = banner, instances = 1,
        threads = [Returned (Some 0), L17]\<rparr> =
     Some \<lparr>loggerInstance = Some 0, mtx = None, cout = banner, instances = 1,
            threads = [Returned (Some 0), Returned (Some 0)]\<rparr> \<and>
   loggerInstance (Log ''message from user1''
     \<lparr>loggerInstance = Some 0, mtx = None, cout = banner, instances = 1,
        threads = [Returned (Some 0), Returned (Some 0)]\<rparr>) = Some 0"
proof -
  let ?s = "\<lparr>loggerInstance = Some 0, mtx = None, cout = banner, instances = 1,
            threads = [Returned (Some 0), L17]\<rparr>"
  let ?s' = "\<lparr>loggerInstance = Some 0, mtx = None, cout = banner, instances = 1,
            threads = [Returned (Some 0), Returned (Some 0)]\<rparr>"
  have e: "exec [(0, True), (0, True), (0, True), (0, True), (0, True), (0, True), (0, True),
         (0, True), (0, True)] (init 2) = Some ?s"
    by (simp add: init_def step_def cout_insert_def banner_def numeral_2_eq_2)
  have a: "loggerInstance ?s = Some 0" by simp
  have e': "exec [(1, True), (1, True)] ?s = Some ?s'"
    by (simp add: step_def)
  from slot_identity_stable [OF e a e', of "''message from user1''"] e e'
  show ?thesis by simp
qed

text \<open>
  C7. In every execution from process start, with or without a failing allocation, a
  call that has returned has returned a non-null pointer, the address of a Logger
  object that has been created. (A call in which the allocation fails does not return:
  the exception leaves it.)
\<close>

theorem getLogger_returns_non_null:
  assumes "exec sched (init n) = Some s" and "t < n" and "threads s ! t = Returned p"
  shows "\<exists>a. p = Some a \<and> a < instances s"
  using reachable_wf [OF assms(1)] wf_returned [of s t p] assms(2,3) by auto

theorem getLogger_returns_non_null_witness:
  "exec [(0, True), (0, True), (0, True), (0, True), (0, True), (0, True), (0, True),
         (0, True), (0, True)] (init 1) =
     Some \<lparr>loggerInstance = Some 0, mtx = None, cout = banner, instances = 1,
            threads = [Returned (Some 0)]\<rparr> \<and>
   (0::nat) < 1 \<and> [Returned (Some (0::nat))] ! 0 = Returned (Some 0) \<and>
   (\<exists>a. Some 0 = Some a \<and> a < (1::nat))"
proof -
  let ?s = "\<lparr>loggerInstance = Some 0, mtx = None, cout = banner, instances = 1,
            threads = [Returned (Some 0)]\<rparr>"
  have e: "exec [(0, True), (0, True), (0, True), (0, True), (0, True), (0, True), (0, True),
         (0, True), (0, True)] (init 1) = Some ?s"
    by (simp add: init_def step_def cout_insert_def banner_def)
  have t: "(0::nat) < 1" by simp
  have r: "threads ?s ! 0 = Returned (Some 0)" by simp
  from getLogger_returns_non_null [OF e t r] e show ?thesis by simp
qed

text \<open>
  C10. In every execution from process start the standard output is a prefix of the
  line \<^verbatim>\<open>New instance created.\<close> with its line feed as long as the slot is empty, and
  it is exactly that line once the slot is set and once any call has returned: the
  constructor of the first successful call writes the line, and no call after it
  writes anything, however many follow.
\<close>

theorem constructor_banner_written_once:
  assumes "exec sched (init n) = Some s"
  shows "(loggerInstance s = None \<longrightarrow> prefix (cout s) banner) \<and>
         (loggerInstance s \<noteq> None \<longrightarrow> cout s = banner) \<and>
         ((\<exists>t<n. \<exists>p. threads s ! t = Returned p) \<longrightarrow> cout s = banner)"
proof -
  from reachable_wf [OF assms(1)] have wf: "wf_state s" and n: "length (threads s) = n"
    by simp_all
  from wf have "loggerInstance s = None \<longrightarrow> prefix (cout s) banner"
    by (auto simp: wf_state_def global_ok_def banner_def prefix_def)
  moreover from wf have "loggerInstance s \<noteq> None \<longrightarrow> cout s = banner"
    by (auto simp: wf_state_def global_ok_def)
  moreover from wf_returned [OF wf] n
  have "(\<exists>t<n. \<exists>p. threads s ! t = Returned p) \<longrightarrow> cout s = banner" by auto
  ultimately show ?thesis by blast
qed

text \<open>A first call run to its end, then a second and a third call.\<close>

theorem constructor_banner_written_once_witness:
  "exec [(0, True), (0, True), (0, True), (0, True), (0, True), (0, True), (0, True),
         (0, True), (0, True), (1, True), (1, True), (2, True), (2, True)] (init 3) =
     Some \<lparr>loggerInstance = Some 0, mtx = None,
            cout = ''New instance created.'' @ [CHR 0x0A], instances = 1,
            threads = [Returned (Some 0), Returned (Some 0), Returned (Some 0)]\<rparr> \<and>
   ''New instance created.'' @ [CHR 0x0A] = banner"
proof -
  let ?s = "\<lparr>loggerInstance = Some 0, mtx = None,
            cout = ''New instance created.'' @ [CHR 0x0A], instances = 1,
            threads = [Returned (Some 0), Returned (Some 0), Returned (Some 0)]\<rparr>"
  have e: "exec [(0, True), (0, True), (0, True), (0, True), (0, True), (0, True), (0, True),
         (0, True), (0, True), (1, True), (1, True), (2, True), (2, True)] (init 3) = Some ?s"
    by (simp add: init_def step_def cout_insert_def numeral_3_eq_3)
  from constructor_banner_written_once [OF e] e show ?thesis by simp
qed

section \<open>The paths through Logger::getLogger\<close>

text \<open>
  C6. A call that starts when the slot holds a reference \<open>a\<close> takes two steps, the
  read of line 17 and the return of line 24. Both can be taken at once whoever owns the
  mutex, and the state after them is the state before with the call returned \<open>a\<close>:
  the mutex, the slot, the output and the number of instances are untouched.
\<close>

theorem getLogger_fast_path:
  assumes t: "t < length (threads s)" and l: "threads s ! t = L17"
    and slot: "loggerInstance s = Some a"
  shows "exec [(t, ok1), (t, ok2)] s =
         Some (s\<lparr>threads := (threads s)[t := Returned (Some a)]\<rparr>)"
proof -
  let ?s1 = "s\<lparr>threads := (threads s)[t := L24]\<rparr>"
  from t l slot have 1: "step t ok1 s = Some ?s1"
    by (simp add: step_def)
  from t slot have 2: "step t ok2 ?s1 =
      Some (s\<lparr>threads := (threads s)[t := Returned (Some a)]\<rparr>)"
    by (simp add: step_def)
  from 1 2 show ?thesis by simp
qed

text \<open>
  Thread 2 calls while thread 1 owns the mutex (thread 1 passed line 17 before thread 0
  constructed, and has just locked).
\<close>

theorem getLogger_fast_path_witness:
  "exec [(1, True), (0, True), (0, True), (0, True), (0, True), (0, True), (0, True),
         (0, True), (0, True), (0, True), (1, True)] (init 3) =
     Some \<lparr>loggerInstance = Some 0, mtx = Some 1, cout = banner, instances = 1,
            threads = [Returned (Some 0), L19, L17]\<rparr> \<and>
   exec [(2, True), (2, True)]
     \<lparr>loggerInstance = Some 0, mtx = Some 1, cout = banner, instances = 1,
        threads = [Returned (Some 0), L19, L17]\<rparr> =
     Some \<lparr>loggerInstance = Some 0, mtx = Some 1, cout = banner, instances = 1,
            threads = [Returned (Some 0), L19, Returned (Some 0)]\<rparr>"
proof -
  let ?s = "\<lparr>loggerInstance = Some 0, mtx = Some 1, cout = banner, instances = 1,
            threads = [Returned (Some 0), L19, L17]\<rparr>"
  have e: "exec [(1, True), (0, True), (0, True), (0, True), (0, True), (0, True), (0, True),
         (0, True), (0, True), (0, True), (1, True)] (init 3) = Some ?s"
    by (simp add: init_def step_def cout_insert_def banner_def numeral_3_eq_3)
  have t: "2 < length (threads ?s)" by simp
  have l: "threads ?s ! 2 = L17" by simp
  have a: "loggerInstance ?s = Some 0" by simp
  from getLogger_fast_path [OF t l a, of True True] e show ?thesis by simp
qed

text \<open>
  C5. A call that is at the second check of line 19, the mutex taken, and finds a
  reference \<open>a\<close> in the slot takes three steps: the check, the unlock of line 22 and
  the return of line 24. After them the mutex is free and the call has returned \<open>a\<close>;
  the slot, the output and the number of instances are as before, so no constructor
  has run.
\<close>

theorem getLogger_recheck_finds_instance:
  assumes t: "t < length (threads s)" and l: "threads s ! t = L19"
    and slot: "loggerInstance s = Some a"
  shows "exec [(t, ok1), (t, ok2), (t, ok3)] s =
         Some (s\<lparr>mtx := None, threads := (threads s)[t := Returned (Some a)]\<rparr>)"
proof -
  let ?s1 = "s\<lparr>threads := (threads s)[t := L22]\<rparr>"
  let ?s2 = "s\<lparr>mtx := None, threads := (threads s)[t := L24]\<rparr>"
  from t l slot have 1: "step t ok1 s = Some ?s1"
    by (simp add: step_def)
  from t have 2: "step t ok2 ?s1 = Some ?s2"
    by (simp add: step_def)
  from t slot have 3: "step t ok3 ?s2 =
      Some (s\<lparr>mtx := None, threads := (threads s)[t := Returned (Some a)]\<rparr>)"
    by (simp add: step_def)
  from 1 2 3 show ?thesis by simp
qed

text \<open>
  Both threads find the slot empty at line 17; thread 0 constructs and returns; thread 1
  then gets the mutex and is at line 19.
\<close>

theorem getLogger_recheck_finds_instance_witness:
  "exec [(0, True), (1, True), (0, True), (0, True), (0, True), (0, True), (0, True),
         (0, True), (0, True), (0, True), (1, True)] (init 2) =
     Some \<lparr>loggerInstance = Some 0, mtx = Some 1, cout = banner, instances = 1,
            threads = [Returned (Some 0), L19]\<rparr> \<and>
   exec [(1, True), (1, True), (1, True)]
     \<lparr>loggerInstance = Some 0, mtx = Some 1, cout = banner, instances = 1,
        threads = [Returned (Some 0), L19]\<rparr> =
     Some \<lparr>loggerInstance = Some 0, mtx = None, cout = banner, instances = 1,
            threads = [Returned (Some 0), Returned (Some 0)]\<rparr>"
proof -
  let ?s = "\<lparr>loggerInstance = Some 0, mtx = Some 1, cout = banner, instances = 1,
            threads = [Returned (Some 0), L19]\<rparr>"
  have e: "exec [(0, True), (1, True), (0, True), (0, True), (0, True), (0, True), (0, True),
         (0, True), (0, True), (0, True), (1, True)] (init 2) = Some ?s"
    by (simp add: init_def step_def cout_insert_def banner_def numeral_2_eq_2)
  have t: "1 < length (threads ?s)" by simp
  have l: "threads ?s ! 1 = L19" by simp
  have a: "loggerInstance ?s = Some 0" by simp
  from getLogger_recheck_finds_instance [OF t l a, of True True True] e show ?thesis by simp
qed

text \<open>
  C4. When \<^verbatim>\<open>new Logger()\<close> fails in thread 0 (its fourth step), the exception leaves
  \<^verbatim>\<open>getLogger\<close> without passing line 22. The slot is still empty and nothing has
  been written, but thread 0 still owns the mutex: a second caller, thread 1, reaches
  line 18 and stays there, and no thread can take a step any more.
\<close>

theorem getLogger_bad_alloc_keeps_mutex:
  "exec [(0, True), (0, True), (0, True), (0, False), (1, True)] (init 2) =
     Some \<lparr>loggerInstance = None, mtx = Some 0, cout = [], instances = 0,
            threads = [Thrown, L18]\<rparr> \<and>
   step 0 True \<lparr>loggerInstance = None, mtx = Some 0, cout = [], instances = 0,
                threads = [Thrown, L18]\<rparr> = None \<and>
   step 1 True \<lparr>loggerInstance = None, mtx = Some 0, cout = [], instances = 0,
                threads = [Thrown, L18]\<rparr> = None"
  by (simp add: init_def step_def numeral_2_eq_2)

section \<open>Publication of the instance\<close>

text \<open>
  C3. The store of line 20 is not ordered before the reads of a caller on the fast
  path. In the execution below thread 0 constructs the Logger and returns, thread 1
  (which had found the slot empty) then locks the mutex, and thread 2 calls
  \<^verbatim>\<open>getLogger\<close> afterwards: it reads the non-null slot at line 17 and again at line
  24 and returns the pointer. Step 7 is the store, step 10 the lock of thread 1, steps
  11 and 12 the two reads of thread 2. The store happens before the lock, through the
  unlock of line 22; it does not happen before either read of thread 2, which takes no
  lock: the store and these reads are a data race, and nothing orders the constructor
  before the use of the pointer that thread 2 obtains.
\<close>

theorem getLogger_fast_path_read_unordered:
  "exec [(1, True), (0, True), (0, True), (0, True), (0, True), (0, True), (0, True),
         (0, True), (0, True), (0, True), (1, True), (2, True), (2, True)] (init 3) =
     Some \<lparr>loggerInstance = Some 0, mtx = Some 1, cout = banner, instances = 1,
            threads = [Returned (Some 0), L19, Returned (Some 0)]\<rparr> \<and>
   trace [(1, True), (0, True), (0, True), (0, True), (0, True), (0, True), (0, True),
          (0, True), (0, True), (0, True), (1, True), (2, True), (2, True)] (init 3) =
     [(1, L17), (0, L17), (0, L18), (0, L19), (0, L20_new), (0, L9 0), (0, L10 0),
      (0, L20_store 0), (0, L22), (0, L24), (1, L18), (2, L17), (2, L24)] \<and>
   happens_before
     [(1, L17), (0, L17), (0, L18), (0, L19), (0, L20_new), (0, L9 0), (0, L10 0),
      (0, L20_store 0), (0, L22), (0, L24), (1, L18), (2, L17), (2, L24)] 7 10 \<and>
   \<not> happens_before
     [(1, L17), (0, L17), (0, L18), (0, L19), (0, L20_new), (0, L9 0), (0, L10 0),
      (0, L20_store 0), (0, L22), (0, L24), (1, L18), (2, L17), (2, L24)] 7 11 \<and>
   \<not> happens_before
     [(1, L17), (0, L17), (0, L18), (0, L19), (0, L20_new), (0, L9 0), (0, L10 0),
      (0, L20_store 0), (0, L22), (0, L24), (1, L18), (2, L17), (2, L24)] 7 12"
proof -
  let ?sched = "[(1, True), (0, True), (0, True), (0, True), (0, True), (0, True), (0, True),
         (0, True), (0, True), (0, True), (1, True), (2, True), (2::nat, True)]"
  let ?tr = "[(1, L17), (0, L17), (0, L18), (0, L19), (0, L20_new), (0, L9 0), (0, L10 0),
      (0, L20_store 0), (0, L22), (0, L24), (1, L18), (2, L17), (2::nat, L24)]"
  have e: "exec ?sched (init 3) =
     Some \<lparr>loggerInstance = Some 0, mtx = Some 1, cout = banner, instances = 1,
            threads = [Returned (Some 0), L19, Returned (Some 0)]\<rparr>"
    by (simp add: init_def step_def cout_insert_def banner_def numeral_3_eq_3)
  have t: "trace ?sched (init 3) = ?tr"
    by (simp add: init_def step_def cout_insert_def numeral_3_eq_3)
  have 1: "happens_before ?tr 7 10" by code_simp
  have 2: "\<not> happens_before ?tr 7 11" by code_simp
  have 3: "\<not> happens_before ?tr 7 12" by code_simp
  from e t 1 2 3 show ?thesis by blast
qed

section \<open>Concurrent calls of Logger::Log\<close>



section \<open>Logger::Log\<close>

text \<open>
  C9. For every message \<open>m\<close>, \<^verbatim>\<open>Log\<close> appends exactly \<open>m\<close> followed by one line
  feed to the standard output and changes nothing else; it returns no value (the
  model of the \<^verbatim>\<open>void\<close> function yields the new state only).
\<close>

theorem Log_writes_message_and_newline:
  "Log m s = s\<lparr>cout := cout s @ m @ [CHR 0x0A]\<rparr>"
  by (simp add: Log_def cout_insert_def)

end
